theory Spec2Isabelle
  imports Main
begin

section \<open>Text\<close>

text \<open>
  The extractor \<^verbatim>\<open>extract_pdf.py\<close> works on Python strings. They are modelled as
  \<^typ>\<open>string\<close>, each character read as the code point of the same number, so the
  texts covered are those over the first 256 code points. The character classes below
  are the ones Python's \<^verbatim>\<open>re\<close> and \<^verbatim>\<open>str\<close> methods use on that range.
  The en dash that some patterns of the source accept beside the hyphen lies outside
  this range and cannot occur in a modelled text.
\<close>

definition code :: "char \<Rightarrow> nat" where
  "code c = of_char c"

definition is_digit :: "nat \<Rightarrow> bool" where
  "is_digit n = (48 \<le> n \<and> n \<le> 57)"

definition is_upper :: "nat \<Rightarrow> bool" where
  "is_upper n = ((65 \<le> n \<and> n \<le> 90) \<or> (192 \<le> n \<and> n \<le> 222 \<and> n \<noteq> 215))"

definition is_lower :: "nat \<Rightarrow> bool" where
  "is_lower n = ((97 \<le> n \<and> n \<le> 122) \<or> (224 \<le> n \<and> n \<le> 254 \<and> n \<noteq> 247))"

definition is_space :: "nat \<Rightarrow> bool" where
  "is_space n = ((9 \<le> n \<and> n \<le> 13) \<or> (28 \<le> n \<and> n \<le> 32) \<or> n = 133 \<or> n = 160)"

definition is_word :: "nat \<Rightarrow> bool" where
  "is_word n = (is_digit n \<or> (65 \<le> n \<and> n \<le> 90) \<or> (97 \<le> n \<and> n \<le> 122) \<or> n = 95
     \<or> n = 170 \<or> n = 178 \<or> n = 179 \<or> n = 181 \<or> n = 185 \<or> n = 186
     \<or> (188 \<le> n \<and> n \<le> 190)
     \<or> (192 \<le> n \<and> n \<le> 255 \<and> n \<noteq> 215 \<and> n \<noteq> 247))"

definition lower_code :: "nat \<Rightarrow> nat" where
  "lower_code n = (if is_upper n then n + 32 else n)"

text \<open>
  Three lower-case letters of the range (181, 223 and 255) have their upper-case form
  outside it; none of these forms contains an A or an L, the only letters
  \<^verbatim>\<open>upper()\<close> is searched for in the source, and the model leaves the three unchanged.
\<close>

definition upper_code :: "nat \<Rightarrow> nat" where
  "upper_code n = (if is_lower n then n - 32 else n)"

definition lower :: "char \<Rightarrow> char" where
  "lower c = char_of (lower_code (code c))"

definition upper :: "char \<Rightarrow> char" where
  "upper c = char_of (upper_code (code c))"

section \<open>Regular expressions as Python's \<^verbatim>\<open>re\<close> matches them\<close>

text \<open>
  A character class is a list of items: a character, a range, or one of the escapes
  \<^verbatim>\<open>\d\<close>, \<^verbatim>\<open>\w\<close>, \<^verbatim>\<open>\s\<close>, \<^verbatim>\<open>\S\<close>.
\<close>

datatype cls = C char | R char char | D | W | S | NS

fun item_ok :: "cls \<Rightarrow> nat \<Rightarrow> bool" where
  "item_ok (C a) n = (n = code a)"
| "item_ok (R a b) n = (code a \<le> n \<and> n \<le> code b)"
| "item_ok D n = is_digit n"
| "item_ok W n = is_word n"
| "item_ok S n = is_space n"
| "item_ok NS n = (\<not> is_space n)"

text \<open>Under \<^verbatim>\<open>re.IGNORECASE\<close> a character is in a class when one of its cases is.\<close>

fun in_cls :: "bool \<Rightarrow> cls list \<Rightarrow> nat \<Rightarrow> bool" where
  "in_cls ic [] n = False"
| "in_cls ic (i # items) n =
     (if item_ok i n then True
      else if ic \<and> (item_ok i (lower_code n) \<or> item_ok i (upper_code n)) then True
      else in_cls ic items n)"

text \<open>
  \<open>Rep lo hi greedy r\<close> is \<^verbatim>\<open>r{lo,hi}\<close> (\<open>hi = None\<close>: unbounded), lazy when
  \<open>greedy\<close> is false; \<open>Grp n r\<close> is the capturing group number \<open>n\<close>; \<open>Ahead r\<close> is
  the lookahead \<^verbatim>\<open>(?=r)\<close>; \<open>WordB\<close>, \<open>EndZ\<close> and \<open>Bos\<close> are \<^verbatim>\<open>\b\<close>, \<^verbatim>\<open>\Z\<close> and
  \<^verbatim>\<open>^\<close> (without \<^verbatim>\<open>re.MULTILINE\<close>).
\<close>

datatype regex =
    Eps
  | Lit char
  | Cls "cls list"
  | NCls "cls list"
  | Dot
  | Seq regex regex
  | Alt regex regex
  | Rep nat "nat option" bool regex
  | Grp nat regex
  | Ahead regex
  | WordB
  | EndZ
  | Bos

record flags =
  ignorecase :: bool
  dotall :: bool

text \<open>
  A cursor is an offset into the text, the character before it and the text from it on.
  Captures are the spans of the groups closed so far, the latest first.
\<close>

type_synonym cursor = "int \<times> char option \<times> string"
type_synonym caps = "(nat \<times> int \<times> int) list"

fun rest :: "cursor \<Rightarrow> string" where
  "rest (i, p, xs) = xs"

fun pos :: "cursor \<Rightarrow> int" where
  "pos (i, p, xs) = i"

fun rsize :: "regex \<Rightarrow> nat" where
  "rsize (Seq a b) = Suc (rsize a + rsize b)"
| "rsize (Alt a b) = Suc (rsize a + rsize b)"
| "rsize (Rep lo hi g r) = Suc (rsize r)"
| "rsize (Grp n r) = Suc (rsize r)"
| "rsize (Ahead r) = Suc (rsize r)"
| "rsize _ = 0"

fun word_opt :: "char option \<Rightarrow> bool" where
  "word_opt None = False"
| "word_opt (Some c) = is_word (code c)"

fun next_ch :: "string \<Rightarrow> char option" where
  "next_ch [] = None"
| "next_ch (x # xs) = Some x"

fun dec :: "nat option \<Rightarrow> nat option" where
  "dec None = None"
| "dec (Some h) = Some (h - 1)"

text \<open>
  The backtracking matcher, in continuation-passing style: \<open>m fl r cur cs k\<close> tries the
  ways \<open>r\<close> can match at \<open>cur\<close> in the order Python tries them and returns the first
  one the continuation \<open>k\<close> accepts. A repetition enters its body again only after an
  iteration that consumed text; the bodies of all repetitions in the source's patterns
  consume at least one character.
\<close>

function m :: "flags \<Rightarrow> regex \<Rightarrow> cursor \<Rightarrow> caps \<Rightarrow>
    (cursor \<Rightarrow> caps \<Rightarrow> (cursor \<times> caps) option) \<Rightarrow> (cursor \<times> caps) option" where
  "m fl Eps cur cs k = k cur cs"
| "m fl (Lit c) (i, p, []) cs k = None"
| "m fl (Lit c) (i, p, x # xs) cs k =
     (if x = c \<or> (ignorecase fl \<and> lower_code (code x) = lower_code (code c))
      then k (i + 1, Some x, xs) cs else None)"
| "m fl (Cls items) (i, p, []) cs k = None"
| "m fl (Cls items) (i, p, x # xs) cs k =
     (if in_cls (ignorecase fl) items (code x) then k (i + 1, Some x, xs) cs else None)"
| "m fl (NCls items) (i, p, []) cs k = None"
| "m fl (NCls items) (i, p, x # xs) cs k =
     (if in_cls (ignorecase fl) items (code x) then None else k (i + 1, Some x, xs) cs)"
| "m fl Dot (i, p, []) cs k = None"
| "m fl Dot (i, p, x # xs) cs k =
     (if dotall fl \<or> x \<noteq> CHR 0x0A then k (i + 1, Some x, xs) cs else None)"
| "m fl (Seq a b) cur cs k = m fl a cur cs (\<lambda>cur' cs'. m fl b cur' cs' k)"
| "m fl (Alt a b) cur cs k =
     (case m fl a cur cs k of Some res \<Rightarrow> Some res | None \<Rightarrow> m fl b cur cs k)"
| "m fl (Rep lo hi g r) cur cs k =
     (if g then
        (case (if hi = Some 0 then None
               else m fl r cur cs (\<lambda>cur' cs'.
                      if length (rest cur') < length (rest cur)
                      then m fl (Rep (lo - 1) (dec hi) g r) cur' cs' k else None)) of
           Some res \<Rightarrow> Some res
         | None \<Rightarrow> if lo = 0 then k cur cs else None)
      else
        (case (if lo = 0 then k cur cs else None) of
           Some res \<Rightarrow> Some res
         | None \<Rightarrow> if hi = Some 0 then None
                   else m fl r cur cs (\<lambda>cur' cs'.
                      if length (rest cur') < length (rest cur)
                      then m fl (Rep (lo - 1) (dec hi) g r) cur' cs' k else None)))"
| "m fl (Grp n r) cur cs k =
     m fl r cur cs (\<lambda>cur' cs'. k cur' ((n, pos cur, pos cur') # cs'))"
| "m fl (Ahead r) cur cs k =
     (case m fl r cur cs (\<lambda>cur' cs'. Some (cur', cs')) of None \<Rightarrow> None
      | Some res \<Rightarrow> k cur (snd res))"
| "m fl WordB (i, p, xs) cs k =
     (if word_opt p \<noteq> word_opt (next_ch xs) then k (i, p, xs) cs else None)"
| "m fl EndZ (i, p, xs) cs k = (if xs = [] then k (i, p, xs) cs else None)"
| "m fl Bos (i, p, xs) cs k = (if i = 0 then k (i, p, xs) cs else None)"
  by pat_completeness auto
termination
  by (relation "measures [\<lambda>(fl, r, cur, cs, k). rsize r,
                           \<lambda>(fl, r, cur, cs, k). length (rest cur)]") auto

text \<open>\<open>nonnull r\<close>: every match of \<open>r\<close> consumes at least one character.\<close>

fun nonnull :: "regex \<Rightarrow> bool" where
  "nonnull Eps = False"
| "nonnull (Lit c) = True"
| "nonnull (Cls items) = True"
| "nonnull (NCls items) = True"
| "nonnull Dot = True"
| "nonnull (Seq a b) = (nonnull a \<or> nonnull b)"
| "nonnull (Alt a b) = (nonnull a \<and> nonnull b)"
| "nonnull (Rep lo hi g r) = (0 < lo \<and> nonnull r)"
| "nonnull (Grp n r) = nonnull r"
| "nonnull (Ahead r) = False"
| "nonnull WordB = False"
| "nonnull EndZ = False"
| "nonnull Bos = False"

text \<open>The cursors a match of \<open>r\<close> started at \<open>cur\<close> can hand to its continuation.\<close>

definition reach :: "regex \<Rightarrow> cursor \<Rightarrow> cursor \<Rightarrow> bool" where
  "reach r cur cur' =
     (pos cur' + int (length (rest cur')) = pos cur + int (length (rest cur))
      \<and> length (rest cur') \<le> length (rest cur)
      \<and> (nonnull r \<longrightarrow> length (rest cur') < length (rest cur)))"

subsection \<open>Facts about the matcher\<close>

lemma reach_Seq: "reach a cur cur' \<Longrightarrow> reach b cur' cur'' \<Longrightarrow> reach (Seq a b) cur cur''"
  by (auto simp: reach_def)

lemma reach_refl: "\<not> nonnull r \<Longrightarrow> reach r cur cur"
  by (simp add: reach_def)

lemma reach_Rep_step:
  "reach r cur cur' \<Longrightarrow> length (rest cur') < length (rest cur) \<Longrightarrow>
   reach (Rep lo' hi' g r) cur' cur'' \<Longrightarrow> reach (Rep lo hi g r) cur cur''"
  by (auto simp: reach_def)

lemma m_cong_k:
  "(\<And>cur' cs'. reach r cur cur' \<Longrightarrow> k cur' cs' = k' cur' cs') \<Longrightarrow> m fl r cur cs k = m fl r cur cs k'"
proof (induction fl r cur cs k arbitrary: k' rule: m.induct)
  case (10 fl a b cur cs k)
  have "m fl a cur cs (\<lambda>cur' cs'. m fl b cur' cs' k) = m fl a cur cs (\<lambda>cur' cs'. m fl b cur' cs' k')"
  proof (rule "10.IH"(2))
    fix cur' cs' assume r1: "reach a cur cur'"
    show "m fl b cur' cs' k = m fl b cur' cs' k'"
    proof (rule "10.IH"(1))
      fix cur'' cs'' assume r2: "reach b cur' cur''"
      show "k cur'' cs'' = k' cur'' cs''" by (rule "10.prems") (rule reach_Seq[OF r1 r2])
    qed
  qed
  then show ?case by simp
next
  case (11 fl a b cur cs k)
  have a: "m fl a cur cs k = m fl a cur cs k'"
    by (rule "11.IH"(1)) (rule "11.prems", auto simp: reach_def)
  show ?case
  proof (cases "m fl a cur cs k")
    case None
    have b: "m fl b cur cs k = m fl b cur cs k'"
      by (rule "11.IH"(2)[OF None]) (rule "11.prems", auto simp: reach_def)
    show ?thesis using a b None by simp
  next
    case (Some x)
    then show ?thesis using a by simp
  qed
next
  case (12 fl lo hi g r cur cs k)
  define K where "K = (\<lambda>k cur' cs'. if length (rest cur') < length (rest cur)
                      then m fl (Rep (lo - 1) (dec hi) g r) cur' cs' k else None)"
  have stop: "(if lo = 0 then k cur cs else None) = (if lo = 0 then k' cur cs else None)"
    using "12.prems"[of cur cs] by (simp add: reach_def)
  have unf: "m fl (Rep lo hi g r) cur cs k =
     (if g then
        (case (if hi = Some 0 then None else m fl r cur cs (K k)) of
           Some res \<Rightarrow> Some res
         | None \<Rightarrow> if lo = 0 then k cur cs else None)
      else
        (case (if lo = 0 then k cur cs else None) of
           Some res \<Rightarrow> Some res
         | None \<Rightarrow> if hi = Some 0 then None else m fl r cur cs (K k)))" for k
    unfolding K_def by (rule m.simps)
  have kk: "k cur'' cs'' = k' cur'' cs''"
    if "reach r cur cur'" "length (rest cur') < length (rest cur)"
       "reach (Rep (lo - 1) (dec hi) g r) cur' cur''" for cur' cur'' cs''
    by (rule "12.prems") (rule reach_Rep_step[OF that])
  show ?case
  proof (cases "hi = Some 0")
    case True
    then show ?thesis unfolding unf using stop by (auto split: option.splits if_splits)
  next
    case h: False
    show ?thesis
    proof (cases g)
      case True
      have more: "m fl r cur cs (K k) = m fl r cur cs (K k')"
        unfolding K_def
      proof (rule "12.IH"(2)[OF True h])
        fix cur' cs' assume rc: "reach r cur cur'"
        show "(if length (rest cur') < length (rest cur)
               then m fl (Rep (lo - 1) (dec hi) g r) cur' cs' k else None) =
              (if length (rest cur') < length (rest cur)
               then m fl (Rep (lo - 1) (dec hi) g r) cur' cs' k' else None)"
        proof (cases "length (rest cur') < length (rest cur)")
          case lt: True
          have "m fl (Rep (lo - 1) (dec hi) g r) cur' cs' k = m fl (Rep (lo - 1) (dec hi) g r) cur' cs' k'"
            by (rule "12.IH"(1)[OF True h lt]) (rule kk[OF rc lt])
          then show ?thesis by simp
        next
          case False
          then show ?thesis by simp
        qed
      qed
      show ?thesis unfolding unf using True more stop by (auto split: option.splits if_splits)
    next
      case ng: False
      show ?thesis
      proof (cases "(if lo = 0 then k cur cs else None)")
        case None
        have more: "m fl r cur cs (K k) = m fl r cur cs (K k')"
          unfolding K_def
        proof (rule "12.IH"(4)[OF ng None h])
          fix cur' cs' assume rc: "reach r cur cur'"
          show "(if length (rest cur') < length (rest cur)
                 then m fl (Rep (lo - 1) (dec hi) g r) cur' cs' k else None) =
                (if length (rest cur') < length (rest cur)
                 then m fl (Rep (lo - 1) (dec hi) g r) cur' cs' k' else None)"
          proof (cases "length (rest cur') < length (rest cur)")
            case lt: True
            have "m fl (Rep (lo - 1) (dec hi) g r) cur' cs' k = m fl (Rep (lo - 1) (dec hi) g r) cur' cs' k'"
              by (rule "12.IH"(3)[OF ng None h lt]) (rule kk[OF rc lt])
            then show ?thesis by simp
          next
            case False
            then show ?thesis by simp
          qed
        qed
        show ?thesis unfolding unf using ng more stop by (auto split: option.splits if_splits)
      next
        case (Some x)
        then show ?thesis unfolding unf using ng stop by (auto split: option.splits if_splits)
      qed
    qed
  qed
next
  case (13 fl n r cur cs k)
  have "m fl r cur cs (\<lambda>cur' cs'. k cur' ((n, pos cur, pos cur') # cs')) =
        m fl r cur cs (\<lambda>cur' cs'. k' cur' ((n, pos cur, pos cur') # cs'))"
    by (rule "13.IH") (rule "13.prems", simp add: reach_def)
  then show ?case by simp
next
  case (14 fl r cur cs k)
  have "k cur cs' = k' cur cs'" for cs'
    by (rule "14.prems") (simp add: reach_def)
  then show ?case by (simp split: option.splits)
qed (auto simp: reach_def)


lemma m_Rep:
  "m fl (Rep lo hi g r) cur cs k =
     (if g then
        (case (if hi = Some 0 then None
               else m fl r cur cs (\<lambda>cur' cs'.
                      if pos cur < pos cur'
                      then m fl (Rep (lo - 1) (dec hi) g r) cur' cs' k else None)) of
           Some res \<Rightarrow> Some res
         | None \<Rightarrow> if lo = 0 then k cur cs else None)
      else
        (case (if lo = 0 then k cur cs else None) of
           Some res \<Rightarrow> Some res
         | None \<Rightarrow> if hi = Some 0 then None
                   else m fl r cur cs (\<lambda>cur' cs'.
                      if pos cur < pos cur'
                      then m fl (Rep (lo - 1) (dec hi) g r) cur' cs' k else None)))"
proof -
  have "m fl r cur cs (\<lambda>cur' cs'. if length (rest cur') < length (rest cur)
                      then m fl (Rep (lo - 1) (dec hi) g r) cur' cs' k else None) =
        m fl r cur cs (\<lambda>cur' cs'. if pos cur < pos cur'
                      then m fl (Rep (lo - 1) (dec hi) g r) cur' cs' k else None)"
    by (rule m_cong_k) (auto simp: reach_def)
  then show ?thesis by (simp only: m.simps(12)[of fl lo hi g r cur cs k])
qed



lemma m_reach:
  "m fl r cur cs k = Some res \<Longrightarrow> \<exists>cur' cs'. reach r cur cur' \<and> k cur' cs' = Some res"
proof (induction fl r cur cs k arbitrary: res rule: m.induct)
  case (10 fl a b cur cs k)
  from "10.prems" have "m fl a cur cs (\<lambda>cur' cs'. m fl b cur' cs' k) = Some res" by simp
  from "10.IH"(2)[OF this] obtain cur' cs' where
    r1: "reach a cur cur'" and mb: "m fl b cur' cs' k = Some res" by blast
  from "10.IH"(1)[OF mb] obtain cur'' cs'' where
    r2: "reach b cur' cur''" and kk: "k cur'' cs'' = Some res" by blast
  from reach_Seq[OF r1 r2] kk show ?case by blast
next
  case (11 fl a b cur cs k)
  show ?case
  proof (cases "m fl a cur cs k")
    case None
    with "11.prems" have "m fl b cur cs k = Some res" by simp
    from "11.IH"(2)[OF None this] show ?thesis by (auto simp: reach_def)
  next
    case (Some x)
    with "11.prems" have "m fl a cur cs k = Some res" by simp
    from "11.IH"(1)[OF this] show ?thesis by (auto simp: reach_def)
  qed
next
  case (12 fl lo hi g r cur cs k)
  define K where "K = (\<lambda>cur' cs'. if length (rest cur') < length (rest cur)
                      then m fl (Rep (lo - 1) (dec hi) g r) cur' cs' k else None)"
  have unf: "m fl (Rep lo hi g r) cur cs k =
     (if g then
        (case (if hi = Some 0 then None else m fl r cur cs K) of
           Some res \<Rightarrow> Some res
         | None \<Rightarrow> if lo = 0 then k cur cs else None)
      else
        (case (if lo = 0 then k cur cs else None) of
           Some res \<Rightarrow> Some res
         | None \<Rightarrow> if hi = Some 0 then None else m fl r cur cs K))"
    unfolding K_def by (rule m.simps)
  from "12.prems" unf consider
      (stop) "lo = 0" "k cur cs = Some res"
    | (more) "hi \<noteq> Some 0" "m fl r cur cs K = Some res"
             "\<not> g \<Longrightarrow> (if lo = 0 then k cur cs else None) = None"
    by (auto split: if_splits option.splits)
  then show ?case
  proof cases
    case stop
    have "reach (Rep lo hi g r) cur cur" using stop(1) by (simp add: reach_def)
    with stop(2) show ?thesis by blast
  next
    case more
    have "\<exists>cur' cs'. reach r cur cur' \<and> K cur' cs' = Some res"
    proof (cases g)
      case True
      from "12.IH"(2)[OF True more(1)] more(2) show ?thesis unfolding K_def by blast
    next
      case False
      from "12.IH"(4)[OF False more(3)[OF False] more(1)] more(2) show ?thesis unfolding K_def by blast
    qed
    then obtain cur' cs' where rc: "reach r cur cur'" and kk: "K cur' cs' = Some res" by blast
    from kk have lt: "length (rest cur') < length (rest cur)"
      and inner: "m fl (Rep (lo - 1) (dec hi) g r) cur' cs' k = Some res"
      unfolding K_def by (auto split: if_splits)
    have "\<exists>cur'' cs''. reach (Rep (lo - 1) (dec hi) g r) cur' cur'' \<and> k cur'' cs'' = Some res"
    proof (cases g)
      case True
      from "12.IH"(1)[OF True more(1) lt inner] show ?thesis .
    next
      case False
      from "12.IH"(3)[OF False more(3)[OF False] more(1) lt inner] show ?thesis .
    qed
    then obtain cur'' cs'' where r2: "reach (Rep (lo - 1) (dec hi) g r) cur' cur''"
      and k2: "k cur'' cs'' = Some res" by blast
    from reach_Rep_step[OF rc lt r2] k2 show ?thesis by blast
  qed
next
  case (13 fl n r cur cs k)
  from "13.prems" have "m fl r cur cs (\<lambda>cur' cs'. k cur' ((n, pos cur, pos cur') # cs')) = Some res"
    by simp
  from "13.IH"[OF this] show ?case by (auto simp: reach_def)
next
  case (14 fl r cur cs k)
  from "14.prems" obtain cs' where "k cur cs' = Some res"
    by (auto split: option.splits)
  moreover have "reach (Ahead r) cur cur" by (simp add: reach_def)
  ultimately show ?case by blast
qed (force simp: reach_def split: if_splits)+

declare m.simps(12) [simp del]

section \<open>Searching\<close>

text \<open>
  \<open>search_at\<close> is the scan of \<^verbatim>\<open>re.search\<close>: the first offset from the cursor on
  at which the pattern matches. With \<open>adv\<close> set, an empty match at the first offset
  is refused, as it is after an empty match of \<^verbatim>\<open>finditer\<close> or \<^verbatim>\<open>sub\<close>.
\<close>

fun search_at :: "flags \<Rightarrow> regex \<Rightarrow> bool \<Rightarrow> cursor \<Rightarrow> (cursor \<times> cursor \<times> caps) option" where
  "search_at fl r adv (i, p, []) =
     (case m fl r (i, p, []) [] (\<lambda>cur' cs'. if adv \<and> pos cur' = i then None else Some (cur', cs')) of
        Some res \<Rightarrow> Some ((i, p, []), res)
      | None \<Rightarrow> None)"
| "search_at fl r adv (i, p, x # xs) =
     (case m fl r (i, p, x # xs) [] (\<lambda>cur' cs'. if adv \<and> pos cur' = i then None else Some (cur', cs')) of
        Some res \<Rightarrow> Some ((i, p, x # xs), res)
      | None \<Rightarrow> search_at fl r False (i + 1, Some x, xs))"

lemma search_at_props:
  "search_at fl r adv cur = Some (st, en, cs) \<Longrightarrow>
     reach r st en
     \<and> pos cur \<le> pos st
     \<and> pos st + int (length (rest st)) = pos cur + int (length (rest cur))
     \<and> (adv \<and> pos st = pos cur \<longrightarrow> pos en \<noteq> pos st)"
proof (induction fl r adv cur rule: search_at.induct)
  case (1 fl r adv i p)
  show ?case
  proof (cases "m fl r (i, p, []) [] (\<lambda>cur' cs'. if adv \<and> pos cur' = i then None else Some (cur', cs'))")
    case None
    with "1.prems" show ?thesis by simp
  next
    case (Some res)
    with "1.prems" have st: "st = (i, p, [])" and res: "res = (en, cs)" by auto
    from m_reach[OF Some] obtain cur' cs' where "reach r (i, p, []) cur'"
      and "(if adv \<and> pos cur' = i then None else Some (cur', cs')) = Some res" by blast
    with st res show ?thesis by (auto split: if_splits)
  qed
next
  case (2 fl r adv i p x xs)
  show ?case
  proof (cases "m fl r (i, p, x # xs) [] (\<lambda>cur' cs'. if adv \<and> pos cur' = i then None else Some (cur', cs'))")
    case None
    with "2.prems" have "search_at fl r False (i + 1, Some x, xs) = Some (st, en, cs)" by simp
    from "2.IH"[OF None this] show ?thesis by auto
  next
    case (Some res)
    with "2.prems" have st: "st = (i, p, x # xs)" and res: "res = (en, cs)" by auto
    from m_reach[OF Some] obtain cur' cs' where "reach r (i, p, x # xs) cur'"
      and "(if adv \<and> pos cur' = i then None else Some (cur', cs')) = Some res" by blast
    with st res show ?thesis by (auto split: if_splits)
  qed
qed

text \<open>A match: its start, its end and the spans of its groups.\<close>

type_synonym match = "int \<times> int \<times> caps"

fun mstart :: "match \<Rightarrow> int" where
  "mstart (s, e, cs) = s"

fun mend :: "match \<Rightarrow> int" where
  "mend (s, e, cs) = e"

definition search :: "flags \<Rightarrow> regex \<Rightarrow> string \<Rightarrow> match option" where
  "search fl r t =
     (case search_at fl r False (0, None, t) of
        None \<Rightarrow> None
      | Some (st, en, cs) \<Rightarrow> Some (pos st, pos en, cs))"

text \<open>
  \<^verbatim>\<open>finditer\<close>: search again from the end of the last match, refusing an empty match
  where an empty match was just found.
\<close>

function finditer_at :: "flags \<Rightarrow> regex \<Rightarrow> bool \<Rightarrow> cursor \<Rightarrow> match list" where
  "finditer_at fl r adv cur =
     (case search_at fl r adv cur of
        None \<Rightarrow> []
      | Some (st, en, cs) \<Rightarrow> (pos st, pos en, cs) # finditer_at fl r (pos en = pos st) en)"
  by pat_completeness auto
termination
proof (relation "measure (\<lambda>(fl, r, adv, cur). 2 * length (rest cur) + (if adv then 0 else 1))")
  fix fl r adv cur x2 st y en cs
  assume "search_at fl r adv cur = Some x2" "(st, y) = x2" "(en, cs) = y"
  then have "search_at fl r adv cur = Some (st, en, cs)" by simp
  from search_at_props[OF this]
  show "((fl, r, pos en = pos st, en), fl, r, adv, cur)
        \<in> measure (\<lambda>(fl, r, adv, cur). 2 * length (rest cur) + (if adv then 0 else 1))"
    by (auto simp: reach_def)
qed simp

declare finditer_at.simps [simp del]

definition finditer :: "flags \<Rightarrow> regex \<Rightarrow> string \<Rightarrow> match list" where
  "finditer fl r t = finditer_at fl r False (0, None, t)"

text \<open>The text between two offsets, \<^verbatim>\<open>t[a:b]\<close> for \<open>0 \<le> a\<close> and \<open>0 \<le> b\<close>.\<close>

definition slice :: "string \<Rightarrow> int \<Rightarrow> int \<Rightarrow> string" where
  "slice t a b = take (nat (b - a)) (drop (nat a) t)"

text \<open>
  \<^verbatim>\<open>match.group(n)\<close>. Every group of the source's patterns takes part in every
  match of its pattern, so the case of a group without a span does not arise there.
\<close>

fun span :: "match \<Rightarrow> nat \<Rightarrow> (int \<times> int) option" where
  "span (s, e, cs) n = (if n = 0 then Some (s, e) else map_of cs n)"

definition group :: "string \<Rightarrow> match \<Rightarrow> nat \<Rightarrow> string" where
  "group t mt n = (case span mt n of None \<Rightarrow> [] | Some (a, b) \<Rightarrow> slice t a b)"

fun ngroups :: "regex \<Rightarrow> nat" where
  "ngroups (Seq a b) = ngroups a + ngroups b"
| "ngroups (Alt a b) = ngroups a + ngroups b"
| "ngroups (Rep lo hi g r) = ngroups r"
| "ngroups (Grp n r) = Suc (ngroups r)"
| "ngroups (Ahead r) = ngroups r"
| "ngroups _ = 0"

text \<open>\<^verbatim>\<open>match.groups()\<close>: the groups from 1 on.\<close>

definition groups :: "regex \<Rightarrow> string \<Rightarrow> match \<Rightarrow> string list" where
  "groups r t mt = map (group t mt) [1..<Suc (ngroups r)]"

text \<open>\<^verbatim>\<open>re.findall\<close> for a pattern with one group, and for a pattern with none.\<close>

definition findall1 :: "flags \<Rightarrow> regex \<Rightarrow> string \<Rightarrow> string list" where
  "findall1 fl r t = map (\<lambda>mt. group t mt 1) (finditer fl r t)"

definition findall0 :: "flags \<Rightarrow> regex \<Rightarrow> string \<Rightarrow> string list" where
  "findall0 fl r t = map (\<lambda>mt. group t mt 0) (finditer fl r t)"

text \<open>\<^verbatim>\<open>re.sub\<close> with a replacement string without group references.\<close>

fun sub_go :: "string \<Rightarrow> string \<Rightarrow> int \<Rightarrow> match list \<Rightarrow> string" where
  "sub_go t repl i [] = drop (nat i) t"
| "sub_go t repl i (mt # ms) = slice t i (mstart mt) @ repl @ sub_go t repl (mend mt) ms"

definition sub :: "flags \<Rightarrow> regex \<Rightarrow> string \<Rightarrow> string \<Rightarrow> string" where
  "sub fl r repl t = sub_go t repl 0 (finditer fl r t)"

section \<open>String methods\<close>

definition strip :: "string \<Rightarrow> string" where
  "strip s = rev (dropWhile (\<lambda>c. is_space (code c)) (rev (dropWhile (\<lambda>c. is_space (code c)) s)))"

definition strip_chars :: "string \<Rightarrow> string \<Rightarrow> string" where
  "strip_chars chars s = rev (dropWhile (\<lambda>c. c \<in> set chars) (rev (dropWhile (\<lambda>c. c \<in> set chars) s)))"

fun split_on :: "char \<Rightarrow> string \<Rightarrow> string list" where
  "split_on c [] = [[]]"
| "split_on c (x # xs) =
     (if x = c then [] # split_on c xs
      else (case split_on c xs of [] \<Rightarrow> [[x]] | w # ws \<Rightarrow> (x # w) # ws))"

fun join :: "string \<Rightarrow> string list \<Rightarrow> string" where
  "join sep [] = []"
| "join sep [x] = x"
| "join sep (x # y # ys) = x @ sep @ join sep (y # ys)"

text \<open>\<^verbatim>\<open>s.replace(old, new)\<close> for a non-empty \<open>old\<close>.\<close>

function replace :: "string \<Rightarrow> string \<Rightarrow> string \<Rightarrow> string" where
  "replace old new [] = []"
| "replace old new (x # xs) =
     (if old \<noteq> [] \<and> take (length old) (x # xs) = old
      then new @ replace old new (drop (length old) (x # xs))
      else x # replace old new xs)"
  by pat_completeness auto
termination
  by (relation "measure (\<lambda>(old, new, s). length s)") auto

text \<open>\<^verbatim>\<open>sub in s\<close>.\<close>

fun contains :: "string \<Rightarrow> string \<Rightarrow> bool" where
  "contains sb [] = (sb = [])"
| "contains sb (x # xs) = (take (length sb) (x # xs) = sb \<or> contains sb xs)"

text \<open>\<^verbatim>\<open>str(n)\<close> and \<^verbatim>\<open>int(s)\<close> for integers in decimal.\<close>

fun str_nat :: "nat \<Rightarrow> string" where
  "str_nat n = (if n < 10 then [''0123456789'' ! n] else str_nat (n div 10) @ [''0123456789'' ! (n mod 10)])"

declare str_nat.simps [simp del]

definition str_int :: "int \<Rightarrow> string" where
  "str_int i = (if i < 0 then CHR ''-'' # str_nat (nat (- i)) else str_nat (nat i))"

definition int_of_str :: "string \<Rightarrow> int" where
  "int_of_str s = foldl (\<lambda>a c. 10 * a + int (code c - 48)) 0 s"

text \<open>\<^verbatim>\<open>list(dict.fromkeys(xs))\<close>: the elements in the order of their first occurrence.\<close>

fun fromkeys :: "'a list \<Rightarrow> 'a list" where
  "fromkeys [] = []"
| "fromkeys (x # xs) = x # fromkeys (filter (\<lambda>y. y \<noteq> x) xs)"

section \<open>Pattern notation\<close>

abbreviation plus :: "regex \<Rightarrow> regex" where "plus r \<equiv> Rep 1 None True r"
abbreviation star :: "regex \<Rightarrow> regex" where "star r \<equiv> Rep 0 None True r"
abbreviation opt :: "regex \<Rightarrow> regex" where "opt r \<equiv> Rep 0 (Some 1) True r"
abbreviation lazy_plus :: "regex \<Rightarrow> regex" where "lazy_plus r \<equiv> Rep 1 None False r"
abbreviation times :: "nat \<Rightarrow> nat \<Rightarrow> regex \<Rightarrow> regex" where "times lo hi r \<equiv> Rep lo (Some hi) True r"
abbreviation at_least :: "nat \<Rightarrow> regex \<Rightarrow> regex" where "at_least lo r \<equiv> Rep lo None True r"

fun lit :: "string \<Rightarrow> regex" where
  "lit [] = Eps"
| "lit [c] = Lit c"
| "lit (c # cs) = Seq (Lit c) (lit cs)"

fun seqs :: "regex list \<Rightarrow> regex" where
  "seqs [] = Eps"
| "seqs [r] = r"
| "seqs (r # rs) = Seq r (seqs rs)"

fun alts :: "regex list \<Rightarrow> regex" where
  "alts [] = Eps"
| "alts [r] = r"
| "alts (r # rs) = Alt r (alts rs)"

definition cs_flags :: flags where
  "cs_flags = \<lparr>ignorecase = False, dotall = False\<rparr>"

definition ic_flags :: flags where
  "ic_flags = \<lparr>ignorecase = True, dotall = False\<rparr>"

definition ic_dotall_flags :: flags where
  "ic_dotall_flags = \<lparr>ignorecase = True, dotall = True\<rparr>"

section \<open>The applicability resolver\<close>

definition ceo_range_pat :: regex where
  "ceo_range_pat = seqs [Lit CHR ''0'', Cls [R CHR ''5'' CHR ''9''], Cls [D], Lit CHR ''-'', plus (Cls [D])]"

definition neo_range_pat :: regex where
  "neo_range_pat = seqs [Lit CHR ''1'', Cls [D], Cls [D], Lit CHR ''-'', plus (Cls [D])]"

definition ceo_single_pat :: regex where
  "ceo_single_pat = alts [Seq (lit ''05'') (Cls [R CHR ''1'' CHR ''9'']),
                          seqs [Lit CHR ''0'', Cls [R CHR ''6'' CHR ''9''], Cls [D]],
                          lit ''100'']"

definition neo_single_pat :: regex where
  "neo_single_pat = alts [Seq (lit ''10'') (Cls [R CHR ''1'' CHR ''9'']),
                          seqs [Lit CHR ''1'', Cls [R CHR ''1'' CHR ''4''], Cls [D]],
                          lit ''150'']"

definition has_ceo :: "string \<Rightarrow> bool" where
  "has_ceo fsn_marker =
     (findall0 cs_flags ceo_range_pat fsn_marker \<noteq> [] \<or> search cs_flags ceo_single_pat fsn_marker \<noteq> None)"

definition has_neo :: "string \<Rightarrow> bool" where
  "has_neo fsn_marker =
     (findall0 cs_flags neo_range_pat fsn_marker \<noteq> [] \<or> search cs_flags neo_single_pat fsn_marker \<noteq> None)"

definition fsn_to_aircraft :: "string \<Rightarrow> string list" where
  "fsn_to_aircraft fsn_marker =
     (if fsn_marker = [] \<or> contains ''ALL'' (map upper fsn_marker) then [''CEO'', ''NEO'']
      else
        (let aircraft = (if has_ceo fsn_marker then [''CEO''] else [])
                        @ (if has_neo fsn_marker then [''NEO''] else [])
         in if aircraft \<noteq> [] then aircraft else [''CEO'', ''NEO'']))"

section \<open>The block segmenter\<close>

text \<open>
  The dictionaries of the source are records. Where a key of the source is a keyword or
  a constant here, the field carries a suffix: \<open>page_p\<close> and \<open>text_p\<close> are the keys
  \<^verbatim>\<open>page\<close> and \<^verbatim>\<open>text\<close> of a page, \<open>text_b\<close> and \<open>page_b\<close> those of a block,
  \<open>entry_id\<close> and \<open>notes_e\<close> the keys \<^verbatim>\<open>id\<close> and \<^verbatim>\<open>notes\<close> of a record, and
  \<open>source_page\<close> and \<open>fsn_raw\<close> its keys \<^verbatim>\<open>_source_page\<close> and \<^verbatim>\<open>_fsn_raw\<close>.
\<close>

record page =
  page_p :: int
  text_p :: string

record block =
  subtask_header :: string
  text_b :: string
  page_b :: int

definition full_with_markers :: "page list \<Rightarrow> string" where
  "full_with_markers pages =
     concat (map (\<lambda>p. ''\<newline><<<PAGE '' @ str_int (page_p p) @ ''>>>\<newline>'' @ text_p p) pages)"

definition subtask_pattern :: regex where
  "subtask_pattern =
     Grp 1 (seqs [lit ''SUBTASK'', plus (Cls [S]), plus (Cls [D, C CHR ''-'']), star (Cls [S]),
                  Cls [C CHR ''-''], star (Cls [S]), plus (Cls [W, S])])"

definition page_marker_pat :: regex where
  "page_marker_pat = seqs [lit ''<<<PAGE '', Grp 1 (plus (Cls [D])), lit ''>>>'']"

fun blocks_of :: "string \<Rightarrow> match list \<Rightarrow> block list" where
  "blocks_of full_text [] = []"
| "blocks_of full_text (mt # splits) =
     (let start = mstart mt;
          end_b = (case splits of [] \<Rightarrow> int (length full_text) | nxt # _ \<Rightarrow> mstart nxt);
          block_text = slice full_text start end_b;
          preceding = slice full_text 0 start;
          page_markers = findall1 cs_flags page_marker_pat preceding;
          page_num = (if page_markers \<noteq> [] then int_of_str (last page_markers) else 0)
      in \<lparr>subtask_header = strip (group full_text mt 0), text_b = block_text, page_b = page_num\<rparr>
         # blocks_of full_text splits)"

definition split_into_blocks :: "page list \<Rightarrow> block list" where
  "split_into_blocks pages =
     blocks_of (full_with_markers pages) (finditer ic_flags subtask_pattern (full_with_markers pages))"

section \<open>The reference-table extractor\<close>

record cb_row =
  panel :: string
  designation :: string
  fin :: string
  location :: string
  fsn :: string

definition cb_full_pat :: regex where
  "cb_full_pat =
     seqs [Grp 1 (Seq (times 2 3 (Cls [D])) (lit ''VU'')), plus (Cls [S]),
           Grp 2 (lazy_plus (Cls [W, C CHR ''/'', C CHR ''-'', C CHR '' ''])), plus (Cls [S]),
           Grp 3 (times 2 6 (Cls [W])), plus (Cls [S]),
           Grp 4 (Seq (Cls [R CHR ''A'' CHR ''Z'']) (times 2 2 (Cls [D]))), star (Cls [S]),
           Grp 5 (star (Cls [D, C CHR ''-'', C CHR '','', S]))]"

definition cb_partial_pat :: regex where
  "cb_partial_pat =
     seqs [WordB, Grp 1 (Seq (Cls [D]) (times 1 5 (Cls [W]))), WordB, plus (Cls [S]),
           opt (Seq (lit ''AT'') (plus (Cls [S]))),
           Grp 2 (Seq (Cls [R CHR ''A'' CHR ''Z'']) (times 2 2 (Cls [D]))), WordB]"

definition cb_patterns :: "regex list" where
  "cb_patterns = [cb_full_pat, cb_partial_pat]"

text \<open>The rows one pattern contributes: one for each match with at least four groups.\<close>

definition rows_of :: "regex \<Rightarrow> string \<Rightarrow> string \<Rightarrow> cb_row list" where
  "rows_of pat t default_fsn =
     concat (map (\<lambda>mt. let gs = groups pat t mt in
                    if length gs \<ge> 4
                    then [\<lparr>panel = strip (gs ! 0), designation = strip (gs ! 1),
                           fin = strip (gs ! 2), location = strip (gs ! 3),
                           fsn = (if length gs > 4 \<and> strip (gs ! 4) \<noteq> [] then strip (gs ! 4)
                                  else default_fsn)\<rparr>]
                    else [])
                 (finditer ic_flags pat t))"

text \<open>The loop over the patterns stops at the first one that contributed a row.\<close>

fun cb_loop :: "regex list \<Rightarrow> string \<Rightarrow> string \<Rightarrow> cb_row list" where
  "cb_loop [] t default_fsn = []"
| "cb_loop (pat # pats) t default_fsn =
     (case rows_of pat t default_fsn of [] \<Rightarrow> cb_loop pats t default_fsn | e # es \<Rightarrow> e # es)"

definition cb_entries :: "string \<Rightarrow> string \<Rightarrow> cb_row list" where
  "cb_entries t default_fsn = cb_loop cb_patterns t default_fsn"

fun dedup_fin :: "string set \<Rightarrow> cb_row list \<Rightarrow> cb_row list" where
  "dedup_fin seen_fins [] = []"
| "dedup_fin seen_fins (cb # cbs) =
     (if fin cb \<notin> seen_fins then cb # dedup_fin (insert (fin cb) seen_fins) cbs
      else dedup_fin seen_fins cbs)"

definition parse_cb_table :: "string \<Rightarrow> string \<Rightarrow> cb_row list" where
  "parse_cb_table t default_fsn = take 10 (dedup_fin {} (cb_entries t default_fsn))"

section \<open>The block parser\<close>

record entry =
  entry_id :: string
  aircraft :: "string list"
  ecamMessages :: "string list"
  ata :: string
  computer :: string
  resetProcedure :: string
  notes_e :: string
  warnings :: "string list"
  cautions :: "string list"
  cbTable :: "cb_row list"
  source_page :: int
  fsn_raw :: string

subsection \<open>FSN applicability\<close>

definition fsn_pat :: regex where
  "fsn_pat =
     seqs [lit ''**'', star (Cls [S]), lit ''ON'', plus (Cls [S]), lit ''A/C'', plus (Cls [S]),
           lit ''FSN'', plus (Cls [S]),
           Grp 1 (Seq (plus (Cls [D, S, C CHR '','', C CHR ''-'']))
                      (star (alts [lit ''TO'', lit ''AND'', lit ''OR'', Lit CHR '','', Cls [D, S]])))]"

definition fsn_str_of :: "string \<Rightarrow> string" where
  "fsn_str_of t =
     (case search ic_flags fsn_pat t of Some fsn_match \<Rightarrow> strip (group t fsn_match 1) | None \<Rightarrow> ''ALL'')"

subsection \<open>ATA chapter\<close>

definition ata_pat :: regex where
  "ata_pat = seqs [Alt (lit ''ATA'') (lit ''TASK''), plus (Cls [S]), Grp 1 (times 2 2 (Cls [D])),
                   Cls [C CHR ''-'', S]]"

definition ata_of :: "string \<Rightarrow> string" where
  "ata_of t = (case search cs_flags ata_pat t of Some ata_match \<Rightarrow> group t ata_match 1 | None \<Rightarrow> ''00'')"

subsection \<open>ECAM message extraction\<close>

definition ecam_pattern :: regex where
  "ecam_pattern =
     Seq (alts [seqs [lit ''ECAM'', star (NCls [C CHR '':'', C CHR 0x0A]), Cls [C CHR '':'', C CHR ''-''],
                      star (Cls [S])],
                seqs [lit ''ALERT'', star (NCls [C CHR '':'', C CHR 0x0A]), Cls [C CHR '':'', C CHR ''-''],
                      star (Cls [S])],
                seqs [lit ''MESSAGE'', star (NCls [C CHR '':'', C CHR 0x0A]), Cls [C CHR '':'', C CHR ''-''],
                      star (Cls [S])]])
         (Grp 1 (Seq (Cls [R CHR ''A'' CHR ''Z''])
                     (plus (Cls [R CHR ''A'' CHR ''Z'', R CHR ''0'' CHR ''9'', C CHR '' '', C CHR ''/'',
                                 C CHR ''+'']))))"

definition known_pat :: regex where
  "known_pat =
     seqs [WordB,
           Grp 1 (seqs [times 2 4 (Cls [R CHR ''A'' CHR ''Z'']),
                        plus (Seq (plus (Cls [S])) (at_least 2 (Cls [R CHR ''A'' CHR ''Z'']))),
                        opt (Seq (plus (Cls [S])) (plus (Cls [D]))),
                        opt (Seq (plus (Cls [S])) (lit ''FAULT''))]),
           WordB]"

definition ecam_primary :: "string \<Rightarrow> string list" where
  "ecam_primary t =
     fromkeys (filter (\<lambda>g. length g > 4) (map (\<lambda>mt. strip (group t mt 1)) (finditer ic_flags ecam_pattern t)))"

definition ecam_known :: "string \<Rightarrow> string list" where
  "ecam_known t =
     take 4 (fromkeys (map strip (filter (\<lambda>k. length k > 6) (findall1 cs_flags known_pat t))))"

definition ecam_msgs_of :: "block \<Rightarrow> string list" where
  "ecam_msgs_of b =
     (let ecam_msgs = ecam_primary (text_b b);
          ecam_msgs = (if ecam_msgs = [] then ecam_known (text_b b) else ecam_msgs)
      in if ecam_msgs = [] then [strip (replace ''SUBTASK'' [] (subtask_header b))] else ecam_msgs)"

subsection \<open>Computer / affected system\<close>

definition comp_pat :: regex where
  "comp_pat =
     seqs [alts [lit ''COMPUTER'', lit ''AFFECTED COMPUTER'', lit ''SYSTEM''],
           plus (Cls [C CHR '':'', S]),
           Grp 1 (Seq (plus (Cls [R CHR ''A'' CHR ''Z'', R CHR ''0'' CHR ''9'', C CHR ''/'', C CHR ''-'']))
                      (opt (Seq (plus (Cls [S]))
                                (plus (Cls [R CHR ''A'' CHR ''Z'', R CHR ''0'' CHR ''9'', C CHR ''/'',
                                            C CHR ''-''])))))]"

definition computer_of :: "string \<Rightarrow> string" where
  "computer_of t =
     (case search ic_flags comp_pat t of Some comp_match \<Rightarrow> strip (group t comp_match 1) | None \<Rightarrow> [])"

subsection \<open>Reset procedure\<close>

definition proc_pat :: regex where
  "proc_pat =
     seqs [Alt (lit ''RESET PROCEDURE'') (lit ''PROCEDURE''), star (Cls [C CHR '':'', S]),
           Grp 1 (lazy_plus (Cls [S, NS])),
           Ahead (alts [lit ''CIRCUIT BREAKER'', lit ''WARNING'', lit ''CAUTION'', lit ''NOTE'',
                        lit ''SUBTASK'', EndZ])]"

definition step_num_pat :: regex where
  "step_num_pat = seqs [Bos, plus (Cls [D]), Cls [C CHR ''.'', C CHR '')''], star (Cls [S])]"

definition raw_proc_of :: "string \<Rightarrow> string" where
  "raw_proc_of t =
     (case search ic_flags proc_pat t of Some proc_match \<Rightarrow> strip (group t proc_match 1) | None \<Rightarrow> [])"

definition steps_of :: "string \<Rightarrow> string list" where
  "steps_of raw_proc =
     map (sub cs_flags step_num_pat [])
         (filter (\<lambda>line. \<not> (line = [] \<or> length line < 5)) (map strip (split_on CHR 0x0A raw_proc)))"

definition reset_procedure_of :: "string \<Rightarrow> string" where
  "reset_procedure_of t =
     (let raw_proc = raw_proc_of t; steps = steps_of raw_proc
      in if steps \<noteq> [] then join ''\<newline>'' (map (\<lambda>(i, s). str_nat (i + 1) @ ''. '' @ s) (enumerate 0 steps))
         else raw_proc)"

subsection \<open>Warnings, cautions and notes\<close>

definition warning_pat :: regex where
  "warning_pat =
     seqs [lit ''WARNING'', star (Cls [S]), opt (Cls [C CHR '':'', C CHR ''-'']), star (Cls [S]),
           Grp 1 (lazy_plus Dot),
           Ahead (alts [lit ''CAUTION'', lit ''NOTE'', lit ''WARNING'', lit ''\<newline>\<newline>'', EndZ])]"

definition caution_pat :: regex where
  "caution_pat =
     seqs [lit ''CAUTION'', star (Cls [S]), opt (Cls [C CHR '':'', C CHR ''-'']), star (Cls [S]),
           Grp 1 (lazy_plus Dot),
           Ahead (alts [lit ''WARNING'', lit ''NOTE'', lit ''CAUTION'', lit ''\<newline>\<newline>'', EndZ])]"

definition note_pat :: regex where
  "note_pat =
     seqs [lit ''NOTE'', star (Cls [S]), opt (Cls [C CHR '':'', C CHR ''-'']), star (Cls [S]),
           Grp 1 (lazy_plus (Cls [S, NS])),
           Ahead (alts [lit ''WARNING'', lit ''CAUTION'', lit ''CIRCUIT'', lit ''SUBTASK'', EndZ])]"

definition advisories :: "regex \<Rightarrow> string \<Rightarrow> string list" where
  "advisories pat t =
     filter (\<lambda>txt. txt \<noteq> [] \<and> length txt > 10)
       (map (\<lambda>w. replace ''\<newline>'' '' '' (strip (group t w 1))) (finditer ic_dotall_flags pat t))"

definition notes_of :: "string \<Rightarrow> string" where
  "notes_of t =
     (case search ic_flags note_pat t of
        Some note_match \<Rightarrow> replace ''\<newline>'' '' '' (strip (group t note_match 1))
      | None \<Rightarrow> [])"

subsection \<open>The identifier\<close>

definition id_pat :: regex where
  "id_pat = plus (NCls [R CHR ''a'' CHR ''z'', R CHR ''0'' CHR ''9''])"

definition id_str_of :: "string list \<Rightarrow> string \<Rightarrow> int \<Rightarrow> string" where
  "id_str_of ecam_msgs header pg =
     (let id_base = (case ecam_msgs of e # _ \<Rightarrow> map lower e | [] \<Rightarrow> map lower header)
      in take 60 (strip_chars ''-'' (sub cs_flags id_pat ''-'' id_base)) @ ''-p'' @ str_int pg)"

subsection \<open>The record\<close>

definition parse_block :: "block \<Rightarrow> entry option" where
  "parse_block b =
     (let t = text_b b;
          pg = page_b b;
          fsn_str = fsn_str_of t;
          ecam_msgs = ecam_msgs_of b
      in Some \<lparr>entry_id = id_str_of ecam_msgs (subtask_header b) pg,
               aircraft = fsn_to_aircraft fsn_str,
               ecamMessages = ecam_msgs,
               ata = ata_of t,
               computer = computer_of t,
               resetProcedure = reset_procedure_of t,
               notes_e = notes_of t,
               warnings = advisories warning_pat t,
               cautions = advisories caution_pat t,
               cbTable = parse_cb_table t fsn_str,
               source_page = pg,
               fsn_raw = fsn_str\<rparr>)"

section \<open>The pipeline driver\<close>

record document =
  version :: string
  lastUpdated :: string
  source :: string
  messages :: "entry list"

text \<open>
  What the call of \<^verbatim>\<open>parse_block\<close> inside the \<^verbatim>\<open>try\<close> of the driver's loop does:
  it returns, or it raises an exception.
\<close>

datatype 'a attempt = Returns 'a | Raises

fun run_blocks :: "(block \<Rightarrow> entry option attempt) \<Rightarrow> block list \<Rightarrow> entry list \<times> nat \<Rightarrow> entry list \<times> nat" where
  "run_blocks call [] (msgs, skipped) = (msgs, skipped)"
| "run_blocks call (b # bs) (msgs, skipped) =
     (case call b of
        Returns (Some e) \<Rightarrow> run_blocks call bs (msgs @ [e], skipped)
      | Returns None \<Rightarrow> run_blocks call bs (msgs, skipped + 1)
      | Raises \<Rightarrow> run_blocks call bs (msgs, skipped + 1))"

definition merge_existing :: "document \<Rightarrow> entry list \<Rightarrow> entry list" where
  "merge_existing existing msgs =
     (let existing_ids = set (map entry_id (messages existing));
          new_entries = filter (\<lambda>e. entry_id e \<notin> existing_ids) msgs
      in messages existing @ new_entries)"

text \<open>
  \<^verbatim>\<open>main\<close> from the extracted pages on: \<open>merge\<close> is the \<^verbatim>\<open>--merge\<close> flag, \<open>existing\<close>
  the content of the output file when there is one, \<open>today\<close> the date and \<open>pdf\<close> the
  path of the document. It yields the document written and the count of skipped blocks.
\<close>

definition main :: "string \<Rightarrow> string \<Rightarrow> bool \<Rightarrow> document option \<Rightarrow> page list \<Rightarrow> document \<times> nat" where
  "main pdf today merge existing pages =
     (let blocks = split_into_blocks pages;
          (msgs, skipped) = run_blocks (\<lambda>b. Returns (parse_block b)) blocks ([], 0);
          msgs = (case existing of
                    Some ex \<Rightarrow> if merge then merge_existing ex msgs else msgs
                  | None \<Rightarrow> msgs)
      in (\<lparr>version = ''1.0'', lastUpdated = today, source = pdf, messages = msgs\<rparr>, skipped))"

section \<open>Evaluation rules\<close>

text \<open>
  The facts that evaluate the functions above on a given text. A repetition is unfolded by
  \<open>m_Rep\<close>, which reads the progress of an iteration off the offsets.
\<close>

lemmas char_ev = code_def is_digit_def is_upper_def is_lower_def is_space_def is_word_def
  lower_code_def upper_code_def lower_def upper_def char_of_def bit_Suc_0_iff

lemmas re_ev = m_Rep search_def finditer_def finditer_at.simps findall0_def findall1_def
  group_def groups_def slice_def sub_def cs_flags_def ic_flags_def ic_dotall_flags_def

lemmas str_ev = strip_def strip_chars_def Let_def

lemmas num_ev = str_int_def str_nat.simps int_of_str_def

section \<open>The applicability resolver: properties\<close>

text \<open>
  The words of the specification, "contains ALL (case-insensitive)": the letters A, L, L,
  each in either case, stand next to each other in the marker.
\<close>

fun has_all_ci :: "string \<Rightarrow> bool" where
  "has_all_ci (a # l1 # l2 # s) =
     ((a \<in> {CHR ''A'', CHR ''a''} \<and> l1 \<in> {CHR ''L'', CHR ''l''} \<and> l2 \<in> {CHR ''L'', CHR ''l''})
      \<or> has_all_ci (l1 # l2 # s))"
| "has_all_ci _ = False"

lemma upper_A: "a \<in> {CHR ''A'', CHR ''a''} \<Longrightarrow> upper a = CHR ''A''"
  by (auto simp: char_ev)

lemma upper_L: "a \<in> {CHR ''L'', CHR ''l''} \<Longrightarrow> upper a = CHR ''L''"
  by (auto simp: char_ev)

lemma has_all_ci_contains: "has_all_ci s \<Longrightarrow> contains ''ALL'' (map upper s)"
proof (induction s rule: has_all_ci.induct)
  case (1 a l1 l2 s)
  then show ?case by (auto simp: upper_A upper_L)
qed simp_all

lemma no_family_200_300: "\<not> has_ceo ''200-300'' \<and> \<not> has_neo ''200-300''"
  by (simp add: has_ceo_def has_neo_def ceo_range_pat_def neo_range_pat_def ceo_single_pat_def
      neo_single_pat_def char_ev re_ev)

text \<open>
  C5: for every applicability marker, \<open>fsn_to_aircraft\<close> returns a non-empty list drawn
  from CEO and NEO (one of CEO; NEO; CEO, NEO), and when neither serial-number family is
  found in the marker it returns both variants.
\<close>

theorem fsn_to_aircraft_never_empty:
  "fsn_to_aircraft s \<in> {[''CEO''], [''NEO''], [''CEO'', ''NEO'']}
   \<and> (\<not> has_ceo s \<and> \<not> has_neo s \<longrightarrow> fsn_to_aircraft s = [''CEO'', ''NEO''])"
  by (simp add: fsn_to_aircraft_def Let_def)

theorem fsn_to_aircraft_never_empty_witness:
  "\<not> has_ceo ''200-300'' \<and> \<not> has_neo ''200-300'' \<and> fsn_to_aircraft ''200-300'' = [''CEO'', ''NEO'']"
  using fsn_to_aircraft_never_empty [of "''200-300''"] no_family_200_300 by blast

text \<open>
  C6: for every applicability marker that is empty or contains ALL in any mix of cases,
  \<open>fsn_to_aircraft\<close> returns exactly CEO and NEO.
\<close>

theorem fsn_to_aircraft_all:
  "s = [] \<or> has_all_ci s \<Longrightarrow> fsn_to_aircraft s = [''CEO'', ''NEO'']"
  by (auto simp: fsn_to_aircraft_def dest: has_all_ci_contains)

theorem fsn_to_aircraft_all_witness:
  "has_all_ci ''fsn All'' \<and> fsn_to_aircraft ''fsn All'' = [''CEO'', ''NEO'']"
proof -
  have h: "has_all_ci ''fsn All''" by simp
  from fsn_to_aircraft_all [of "''fsn All''"] h show ?thesis by blast
qed

section \<open>The reference-table extractor: properties\<close>

text \<open>
  The words of the specification, "deduplicated by finCode, first occurrence wins": the
  rows whose fin no earlier row has, in their order.
\<close>

definition first_by_fin :: "cb_row list \<Rightarrow> cb_row list" where
  "first_by_fin xs = map snd (filter (\<lambda>(i, x). fin x \<notin> fin ` set (take i xs)) (enumerate 0 xs))"

lemma dedup_fin_props:
  "distinct (map fin (dedup_fin seen xs))
   \<and> (\<forall>r\<in>set (dedup_fin seen xs). fin r \<notin> seen \<and> find (\<lambda>e. fin e = fin r) xs = Some r)"
proof (induction xs arbitrary: seen)
  case Nil
  show ?case by simp
next
  case (Cons cb cbs)
  show ?case
  proof (cases "fin cb \<in> seen")
    case True
    with Cons[of seen] show ?thesis by auto
  next
    case False
    with Cons[of "insert (fin cb) seen"] show ?thesis by auto
  qed
qed

lemma dedup_fin_first:
  "dedup_fin seen xs =
     map snd (filter (\<lambda>(i, x). fin x \<notin> seen \<union> fin ` set (take i xs)) (enumerate 0 xs))"
proof (induction xs arbitrary: seen)
  case Nil
  show ?case by simp
next
  case (Cons cb cbs)
  have shift: "map snd (filter (\<lambda>(i, x). fin x \<notin> seen \<union> fin ` set (take i (cb # cbs))) (enumerate (Suc 0) cbs))
      = map snd (filter (\<lambda>(i, x). fin x \<notin> insert (fin cb) seen \<union> fin ` set (take i cbs)) (enumerate 0 cbs))"
  proof -
    have "filter (\<lambda>x. fin (snd x) \<notin> seen \<and> fin (snd x) \<noteq> fin cb
                       \<and> fin (snd x) \<notin> fin ` set (take (fst x) cbs)) (enumerate 0 cbs)
        = filter (\<lambda>(i, x). fin x \<notin> insert (fin cb) seen \<union> fin ` set (take i cbs)) (enumerate 0 cbs)"
      by (rule filter_cong) auto
    then show ?thesis
      by (simp add: enumerate_Suc_eq filter_map comp_def case_prod_beta)
  qed
  show ?case
  proof (cases "fin cb \<in> seen")
    case True
    then have "insert (fin cb) seen = seen" by auto
    with True shift Cons[of seen] show ?thesis by simp
  next
    case False
    with shift Cons[of "insert (fin cb) seen"] show ?thesis by simp
  qed
qed

lemma dedup_fin_covers: "fin ` set (dedup_fin seen xs) = fin ` set xs - seen"
proof (induction xs arbitrary: seen)
  case Nil
  show ?case by simp
next
  case (Cons cb cbs)
  show ?case
  proof (cases "fin cb \<in> seen")
    case True
    with Cons[of seen] show ?thesis by auto
  next
    case False
    with Cons[of "insert (fin cb) seen"] show ?thesis by auto
  qed
qed

definition three_rows :: string where
  "three_rows = ''49VU A 1CA1 D01; 49VU B 1CA2 D02; 49VU C 1CA2 D03''"

lemma three_rows_entries:
  "cb_entries three_rows ''ALL'' =
     [\<lparr>panel = ''49VU'', designation = ''A'', fin = ''1CA1'', location = ''D01'', fsn = ''ALL''\<rparr>,
      \<lparr>panel = ''49VU'', designation = ''B'', fin = ''1CA2'', location = ''D02'', fsn = ''ALL''\<rparr>,
      \<lparr>panel = ''49VU'', designation = ''C'', fin = ''1CA2'', location = ''D03'', fsn = ''ALL''\<rparr>]"
  by (simp add: three_rows_def cb_entries_def rows_of_def cb_patterns_def cb_full_pat_def char_ev re_ev str_ev)

text \<open>
  C8: for every block text and default applicability, the table \<open>parse_cb_table\<close> returns
  is the first 10 of the raw matches that are the first with their fin, in their order.
  So it has at most 10 rows, no two of its rows have the same fin, each of its rows is the
  first of the raw matches with its fin, and when it has fewer than 10 rows every fin of
  the raw matches is the fin of one of its rows.
\<close>

theorem parse_cb_table_unique_capped:
  "parse_cb_table t default_fsn = take 10 (first_by_fin (cb_entries t default_fsn))
   \<and> length (parse_cb_table t default_fsn) \<le> 10
   \<and> distinct (map fin (parse_cb_table t default_fsn))
   \<and> (\<forall>r\<in>set (parse_cb_table t default_fsn).
         find (\<lambda>e. fin e = fin r) (cb_entries t default_fsn) = Some r)
   \<and> (length (parse_cb_table t default_fsn) < 10 \<longrightarrow>
         fin ` set (parse_cb_table t default_fsn) = fin ` set (cb_entries t default_fsn))"
proof -
  let ?raw = "cb_entries t default_fsn"
  let ?u = "dedup_fin {} ?raw"
  have eq: "parse_cb_table t default_fsn = take 10 (first_by_fin ?raw)"
    by (simp add: parse_cb_table_def first_by_fin_def dedup_fin_first)
  have "distinct (take 10 (map fin ?u))"
    using dedup_fin_props[of "{}" ?raw] by (simp only: distinct_take)
  then have ds: "distinct (map fin (parse_cb_table t default_fsn))"
    by (simp add: parse_cb_table_def take_map)
  have "set (take 10 ?u) \<subseteq> set ?u" by (rule set_take_subset)
  then have fo: "\<forall>r\<in>set (parse_cb_table t default_fsn). find (\<lambda>e. fin e = fin r) ?raw = Some r"
    using dedup_fin_props[of "{}" ?raw] by (auto simp: parse_cb_table_def)
  have cv: "fin ` set (parse_cb_table t default_fsn) = fin ` set ?raw"
    if "length (parse_cb_table t default_fsn) < 10"
  proof -
    from that have "take 10 ?u = ?u" by (simp add: parse_cb_table_def min_def split: if_splits)
    then show ?thesis using dedup_fin_covers[of "{}" ?raw] by (simp add: parse_cb_table_def)
  qed
  have ln: "length (parse_cb_table t default_fsn) \<le> 10" by (simp add: parse_cb_table_def)
  from eq ln ds fo cv show ?thesis by blast
qed

theorem parse_cb_table_unique_capped_witness:
  "parse_cb_table three_rows ''ALL'' =
     [\<lparr>panel = ''49VU'', designation = ''A'', fin = ''1CA1'', location = ''D01'', fsn = ''ALL''\<rparr>,
      \<lparr>panel = ''49VU'', designation = ''B'', fin = ''1CA2'', location = ''D02'', fsn = ''ALL''\<rparr>]
   \<and> find (\<lambda>e. fin e = ''1CA2'') (cb_entries three_rows ''ALL'') =
     Some \<lparr>panel = ''49VU'', designation = ''B'', fin = ''1CA2'', location = ''D02'', fsn = ''ALL''\<rparr>
   \<and> fin ` set (parse_cb_table three_rows ''ALL'') = {''1CA1'', ''1CA2''}"
proof -
  note th = parse_cb_table_unique_capped [of three_rows "''ALL''"]
  from th have "parse_cb_table three_rows ''ALL'' = take 10 (first_by_fin (cb_entries three_rows ''ALL''))"
    by blast
  then have pv: "parse_cb_table three_rows ''ALL'' =
     [\<lparr>panel = ''49VU'', designation = ''A'', fin = ''1CA1'', location = ''D01'', fsn = ''ALL''\<rparr>,
      \<lparr>panel = ''49VU'', designation = ''B'', fin = ''1CA2'', location = ''D02'', fsn = ''ALL''\<rparr>]"
    by (simp add: three_rows_entries first_by_fin_def enumerate_eq_zip upt_rec)
  from th have "\<forall>r\<in>set (parse_cb_table three_rows ''ALL'').
         find (\<lambda>e. fin e = fin r) (cb_entries three_rows ''ALL'') = Some r" by blast
  with pv have fd: "find (\<lambda>e. fin e = ''1CA2'') (cb_entries three_rows ''ALL'') =
     Some \<lparr>panel = ''49VU'', designation = ''B'', fin = ''1CA2'', location = ''D02'', fsn = ''ALL''\<rparr>"
    by simp
  from pv have "fin ` set (parse_cb_table three_rows ''ALL'') = {''1CA1'', ''1CA2''}" by simp
  with pv fd show ?thesis by blast
qed

text \<open>
  C2: on the block text \<^verbatim>\<open>1CA1 AT D01\<close> the full-row pattern finds no match and the
  partial-row pattern finds one, with the reference code 1CA1 and the location D01. The
  loop keeps a match only when it has at least four groups; the partial-row pattern has
  two, so no row is made from it and the table is empty.
\<close>

theorem partial_rows_are_dropped:
  "finditer ic_flags cb_full_pat ''1CA1 AT D01'' = []
   \<and> map (groups cb_partial_pat ''1CA1 AT D01'') (finditer ic_flags cb_partial_pat ''1CA1 AT D01'')
       = [[''1CA1'', ''D01'']]
   \<and> parse_cb_table ''1CA1 AT D01'' ''ALL'' = []"
  by (simp add: parse_cb_table_def cb_entries_def rows_of_def cb_patterns_def cb_full_pat_def
      cb_partial_pat_def char_ev re_ev str_ev)

section \<open>The pipeline driver: properties\<close>

text \<open>The records a run parses from the pages, before any merge.\<close>

definition fresh_messages :: "page list \<Rightarrow> entry list" where
  "fresh_messages pages = fst (run_blocks (\<lambda>b. Returns (parse_block b)) (split_into_blocks pages) ([], 0))"

lemma run_blocks_count:
  "\<forall>b\<in>set bs. call b = Raises \<or> (\<exists>e. call b = Returns (Some e)) \<Longrightarrow>
   snd (run_blocks call bs (msgs, skipped)) = skipped + length (filter (\<lambda>b. call b = Raises) bs)"
proof (induction bs arbitrary: msgs skipped)
  case Nil
  show ?case by simp
next
  case (Cons b bs)
  from Cons.prems have rest: "\<forall>b\<in>set bs. call b = Raises \<or> (\<exists>e. call b = Returns (Some e))" by simp
  from Cons.prems consider (raises) "call b = Raises" | (returns) e where "call b = Returns (Some e)"
    by auto
  then show ?case
  proof cases
    case raises
    then show ?thesis using Cons.IH[OF rest, of msgs "skipped + 1"] by simp
  next
    case returns
    then show ?thesis using Cons.IH[OF rest, of "msgs @ [e]" skipped] by simp
  qed
qed

lemma run_blocks_parse:
  "run_blocks (\<lambda>b. Returns (parse_block b)) bs (msgs, skipped) = (msgs @ map (the \<circ> parse_block) bs, skipped)"
  by (induction bs arbitrary: msgs) (simp_all add: parse_block_def Let_def)

lemma main_messages:
  "messages (fst (main pdf today merge existing pages)) =
     (case existing of Some ex \<Rightarrow> if merge then merge_existing ex (fresh_messages pages) else fresh_messages pages
      | None \<Rightarrow> fresh_messages pages)"
  by (auto simp: main_def fresh_messages_def Let_def split: prod.splits option.splits)

lemma fresh_ids:
  "map entry_id (fresh_messages pages) =
     map (\<lambda>b. id_str_of (ecam_msgs_of b) (subtask_header b) (page_b b)) (split_into_blocks pages)"
  unfolding fresh_messages_def run_blocks_parse by (simp add: parse_block_def Let_def)

definition block_on :: "int \<Rightarrow> block" where
  "block_on pg = \<lparr>subtask_header = ''SUBTASK 1 - A'', text_b = ''SUBTASK 1 - A'', page_b = pg\<rparr>"

text \<open>
  C10: \<open>parse_block\<close> returns a record for every block and never \<open>None\<close>; so the loop
  of the driver counts a block as skipped only when the call raised: whatever calls
  raise, the counter grows by their number, and in a run of \<open>main\<close> it stays 0.
\<close>

theorem parse_block_never_none:
  "parse_block b \<noteq> None
   \<and> ((\<forall>b'\<in>set bs. call b' = Returns (parse_block b') \<or> call b' = Raises) \<longrightarrow>
        snd (run_blocks call bs (msgs, skipped)) = skipped + length (filter (\<lambda>b'. call b' = Raises) bs))
   \<and> snd (main pdf today merge existing pages) = 0"
proof -
  have a: "parse_block b' \<noteq> None" for b'
    by (simp add: parse_block_def Let_def)
  have b: "snd (run_blocks call bs (msgs, skipped)) = skipped + length (filter (\<lambda>b'. call b' = Raises) bs)"
    if h: "\<forall>b'\<in>set bs. call b' = Returns (parse_block b') \<or> call b' = Raises"
  proof (rule run_blocks_count)
    show "\<forall>b\<in>set bs. call b = Raises \<or> (\<exists>e. call b = Returns (Some e))"
      using h a by (metis not_Some_eq)
  qed
  have c: "snd (main pdf today merge existing pages) = 0"
    by (simp add: main_def run_blocks_parse Let_def split: prod.splits)
  from a b c show ?thesis by blast
qed

theorem parse_block_never_none_witness:
  "snd (run_blocks (\<lambda>b. if page_b b = 2 then Raises else Returns (parse_block b))
          [block_on 1, block_on 2, block_on 3] ([], 0)) = 1"
proof -
  let ?call = "\<lambda>b. if page_b b = 2 then Raises else Returns (parse_block b)"
  have h: "\<forall>b'\<in>set [block_on 1, block_on 2, block_on 3].
             ?call b' = Returns (parse_block b') \<or> ?call b' = Raises"
    by simp
  from parse_block_never_none [of "block_on 1" "[block_on 1, block_on 2, block_on 3]" ?call "[]" 0] h
  have "snd (run_blocks ?call [block_on 1, block_on 2, block_on 3] ([], 0))
        = 0 + length (filter (\<lambda>b'. ?call b' = Raises) [block_on 1, block_on 2, block_on 3])"
    by blast
  then show ?thesis by (simp add: block_on_def)
qed

definition twice_on_a_page :: "page list" where
  "twice_on_a_page = [\<lparr>page_p = 1, text_p = ''SUBTASK 1 - PACK FAULT.\<newline>SUBTASK 2 - PACK FAULT.''\<rparr>]"

lemma twice_blocks:
  "split_into_blocks twice_on_a_page =
     [\<lparr>subtask_header = ''SUBTASK 1 - PACK FAULT'', text_b = ''SUBTASK 1 - PACK FAULT.\<newline>'', page_b = 1\<rparr>,
      \<lparr>subtask_header = ''SUBTASK 2 - PACK FAULT'', text_b = ''SUBTASK 2 - PACK FAULT.'', page_b = 1\<rparr>]"
  by (simp add: twice_on_a_page_def split_into_blocks_def full_with_markers_def subtask_pattern_def
      page_marker_pat_def char_ev re_ev str_ev num_ev)

lemma twice_msgs_1:
  "ecam_msgs_of \<lparr>subtask_header = ''SUBTASK 1 - PACK FAULT'', text_b = ''SUBTASK 1 - PACK FAULT.\<newline>'', page_b = 1\<rparr>
     = [''PACK FAULT'']"
  by (simp add: ecam_msgs_of_def ecam_primary_def ecam_known_def ecam_pattern_def known_pat_def
      char_ev re_ev str_ev)

lemma twice_msgs_2:
  "ecam_msgs_of \<lparr>subtask_header = ''SUBTASK 2 - PACK FAULT'', text_b = ''SUBTASK 2 - PACK FAULT.'', page_b = 1\<rparr>
     = [''PACK FAULT'']"
  by (simp add: ecam_msgs_of_def ecam_primary_def ecam_known_def ecam_pattern_def known_pat_def
      char_ev re_ev str_ev)

lemma pack_fault_id_p1: "id_str_of [''PACK FAULT''] h 1 = ''pack-fault-p1''"
  by (simp add: id_str_of_def id_pat_def char_ev re_ev str_ev num_ev)

lemma id_str_of_shape:
  "\<exists>base. id_str_of msgs h pg = base @ ''-p'' @ str_int pg \<and> length base \<le> 60"
  by (simp add: id_str_of_def Let_def)

text \<open>
  C4: a page that holds two procedures for the same alert gives two records with the
  same id, \<^verbatim>\<open>pack-fault-p1\<close>: the id is made of the first message and the page
  only, so the ids of the document of a run are not pairwise distinct.
\<close>

theorem ids_repeat_on_a_page:
  "map entry_id (messages (fst (main pdf today False None twice_on_a_page))) = [''pack-fault-p1'', ''pack-fault-p1'']"
  by (simp add: main_messages fresh_ids twice_blocks twice_msgs_1 twice_msgs_2 pack_fault_id_p1)

definition two_alerts :: "page list" where
  "two_alerts = [\<lparr>page_p = 1, text_p = ''SUBTASK 1 - PACK FAULT.\<newline>SUBTASK 2 - FWC FAULT.''\<rparr>]"

lemma two_alerts_blocks:
  "split_into_blocks two_alerts =
     [\<lparr>subtask_header = ''SUBTASK 1 - PACK FAULT'', text_b = ''SUBTASK 1 - PACK FAULT.\<newline>'', page_b = 1\<rparr>,
      \<lparr>subtask_header = ''SUBTASK 2 - FWC FAULT'', text_b = ''SUBTASK 2 - FWC FAULT.'', page_b = 1\<rparr>]"
  by (simp add: two_alerts_def split_into_blocks_def full_with_markers_def subtask_pattern_def
      page_marker_pat_def char_ev re_ev str_ev num_ev)

lemma two_alerts_msgs_2:
  "ecam_msgs_of \<lparr>subtask_header = ''SUBTASK 2 - FWC FAULT'', text_b = ''SUBTASK 2 - FWC FAULT.'', page_b = 1\<rparr>
     = [''FWC FAULT'']"
  by (simp add: ecam_msgs_of_def ecam_primary_def ecam_known_def ecam_pattern_def known_pat_def
      char_ev re_ev str_ev)

lemma fwc_fault_id_p1: "id_str_of [''FWC FAULT''] h 1 = ''fwc-fault-p1''"
  by (simp add: id_str_of_def id_pat_def char_ev re_ev str_ev num_ev)

lemma two_alerts_ids: "map entry_id (fresh_messages two_alerts) = [''pack-fault-p1'', ''fwc-fault-p1'']"
  by (simp add: fresh_ids two_alerts_blocks twice_msgs_1 two_alerts_msgs_2 pack_fault_id_p1 fwc_fault_id_p1)

definition reviewed :: "string \<Rightarrow> entry" where
  "reviewed i = \<lparr>entry_id = i, aircraft = [''CEO''], ecamMessages = [''REVIEWED''], ata = ''21'',
     computer = ''ACSC'', resetProcedure = ''1. Reviewed'', notes_e = ''reviewed'', warnings = [],
     cautions = [], cbTable = [], source_page = 1, fsn_raw = ''ALL''\<rparr>"

definition prior_doc :: document where
  "prior_doc = \<lparr>version = ''1.0'', lastUpdated = ''2026-01-01'', source = ''resets.pdf'',
     messages = [reviewed ''apu-fault-p3'', reviewed ''pack-fault-p1'']\<rparr>"

text \<open>
  C9: in merge mode, with a prior document whose record ids are x and y and a fresh parse
  whose record ids are y and z, the ids of the merged document are exactly x, y and z;
  the merged records are the prior ones, in their order, followed by fresh records with
  new ids only; and a record with the id y is one of the prior document.
\<close>

theorem merge_law:
  "set (map entry_id (messages a)) = {x, y} \<Longrightarrow> set (map entry_id (fresh_messages pages)) = {y, z} \<Longrightarrow>
   set (map entry_id (messages (fst (main pdf today True (Some a) pages)))) = {x, y, z}
   \<and> (\<exists>new. messages (fst (main pdf today True (Some a) pages)) = messages a @ new
            \<and> set new \<subseteq> set (fresh_messages pages) \<and> (\<forall>e\<in>set new. entry_id e \<notin> {x, y}))
   \<and> (\<forall>e\<in>set (messages (fst (main pdf today True (Some a) pages))).
         entry_id e = y \<longrightarrow> e \<in> set (messages a))"
proof -
  assume pa: "set (map entry_id (messages a)) = {x, y}"
    and pf: "set (map entry_id (fresh_messages pages)) = {y, z}"
  let ?new = "filter (\<lambda>e. entry_id e \<notin> set (map entry_id (messages a))) (fresh_messages pages)"
  have mm: "messages (fst (main pdf today True (Some a) pages)) = messages a @ ?new"
    by (simp add: main_messages merge_existing_def Let_def)
  have ids_new: "set (map entry_id ?new) = {y, z} - {x, y}"
    using pa pf by auto
  have "set (map entry_id (messages a @ ?new)) = {x, y, z}"
    using pa ids_new by auto
  moreover have "set ?new \<subseteq> set (fresh_messages pages) \<and> (\<forall>e\<in>set ?new. entry_id e \<notin> {x, y})"
    using pa by auto
  moreover have "\<forall>e\<in>set (messages a @ ?new). entry_id e = y \<longrightarrow> e \<in> set (messages a)"
    using pa by auto
  ultimately show ?thesis unfolding mm by blast
qed

theorem merge_law_witness:
  "set (map entry_id (messages prior_doc)) = {''apu-fault-p3'', ''pack-fault-p1''}
   \<and> set (map entry_id (fresh_messages two_alerts)) = {''pack-fault-p1'', ''fwc-fault-p1''}
   \<and> set (map entry_id (messages (fst (main ''resets.pdf'' ''2026-02-01'' True (Some prior_doc) two_alerts))))
       = {''apu-fault-p3'', ''pack-fault-p1'', ''fwc-fault-p1''}"
proof -
  have pa: "set (map entry_id (messages prior_doc)) = {''apu-fault-p3'', ''pack-fault-p1''}"
    by (simp add: prior_doc_def reviewed_def)
  have pf: "set (map entry_id (fresh_messages two_alerts)) = {''pack-fault-p1'', ''fwc-fault-p1''}"
    by (simp add: two_alerts_ids)
  from merge_law [OF pa pf, of "''resets.pdf''" "''2026-02-01''"] pa pf show ?thesis by blast
qed

section \<open>The block parser: properties\<close>

definition lower_case_page :: "page list" where
  "lower_case_page = [\<lparr>page_p = 2, text_p = ''subtask 24-00 - reset''\<rparr>]"

definition lower_case_block :: block where
  "lower_case_block = \<lparr>subtask_header = ''subtask 24-00 - reset'', text_b = ''subtask 24-00 - reset'', page_b = 2\<rparr>"

lemma lower_case_blocks: "split_into_blocks lower_case_page = [lower_case_block]"
  by (simp add: lower_case_page_def lower_case_block_def split_into_blocks_def full_with_markers_def
      subtask_pattern_def page_marker_pat_def char_ev re_ev str_ev num_ev)

lemma lower_case_no_match:
  "ecam_primary (text_b lower_case_block) = [] \<and> ecam_known (text_b lower_case_block) = []"
  by (simp add: lower_case_block_def ecam_primary_def ecam_known_def ecam_pattern_def known_pat_def
      char_ev re_ev str_ev)

lemma ecam_msgs_of_nonempty: "ecam_msgs_of b \<noteq> []"
  by (simp add: ecam_msgs_of_def Let_def)

text \<open>
  C7: the header pattern takes the keyword in any case, and the page
  \<^verbatim>\<open>subtask 24-00 - reset\<close> gives one block with that header. Neither message
  pattern finds an identifier in it, and the only identifier of its record is the whole
  header, keyword included: the keyword is removed only where it is in upper case.
\<close>

theorem keyword_kept_in_lower_case_header:
  "split_into_blocks lower_case_page = [lower_case_block]
   \<and> ecam_primary (text_b lower_case_block) = [] \<and> ecam_known (text_b lower_case_block) = []
   \<and> map ecamMessages (fresh_messages lower_case_page) = [[''subtask 24-00 - reset'']]"
proof -
  have "ecam_msgs_of lower_case_block = [''subtask 24-00 - reset'']"
    using lower_case_no_match by (simp add: ecam_msgs_of_def lower_case_block_def str_ev char_ev)
  then have "map ecamMessages (fresh_messages lower_case_page) = [[''subtask 24-00 - reset'']]"
    by (simp add: fresh_messages_def run_blocks_parse lower_case_blocks parse_block_def Let_def)
  with lower_case_blocks lower_case_no_match show ?thesis by blast
qed

definition pack_fault_block :: "int \<Rightarrow> block" where
  "pack_fault_block pg =
     \<lparr>subtask_header = ''SUBTASK 24-00-810 - PACK FAULT RESET'',
      text_b = ''SUBTASK 24-00-810 - PACK FAULT RESET\<newline>** ON A/C FSN 051-070\<newline>RESET PROCEDURE: 1. Open panel 2. Press button'',
      page_b = pg\<rparr>"

definition pack_fault_block_lines :: "int \<Rightarrow> block" where
  "pack_fault_block_lines pg =
     \<lparr>subtask_header = ''SUBTASK 24-00-810 - PACK FAULT RESET'',
      text_b = ''SUBTASK 24-00-810 - PACK FAULT RESET\<newline>** ON A/C FSN 051-070\<newline>RESET PROCEDURE:\<newline>1. Open panel\<newline>2. Press button'',
      page_b = pg\<rparr>"

lemma pack_fault_fsn: "fsn_str_of (text_b (pack_fault_block pg)) = ''051-070''"
  by (simp add: pack_fault_block_def fsn_str_of_def fsn_pat_def char_ev re_ev str_ev)

lemma ceo_051_070: "fsn_to_aircraft ''051-070'' = [''CEO'']"
  by (simp add: fsn_to_aircraft_def has_ceo_def has_neo_def ceo_range_pat_def neo_range_pat_def
      ceo_single_pat_def neo_single_pat_def char_ev re_ev str_ev)

lemma pack_fault_proc:
  "reset_procedure_of (text_b (pack_fault_block pg)) = ''1. Open panel 2. Press button''"
  by (simp add: pack_fault_block_def reset_procedure_of_def raw_proc_of_def steps_of_def proc_pat_def
      step_num_pat_def char_ev re_ev str_ev str_nat.simps)

lemma pack_fault_proc_lines:
  "reset_procedure_of (text_b (pack_fault_block_lines pg)) = ''1. Open panel\<newline>2. Press button''"
  by (simp add: pack_fault_block_lines_def reset_procedure_of_def raw_proc_of_def steps_of_def proc_pat_def
      step_num_pat_def char_ev re_ev str_ev str_nat.simps)

lemma pack_fault_msgs: "ecam_msgs_of (pack_fault_block pg) = [''PACK FAULT RESET'']"
  by (simp add: pack_fault_block_def ecam_msgs_of_def ecam_primary_def ecam_known_def ecam_pattern_def
      known_pat_def char_ev re_ev str_ev)

lemma pack_fault_id: "id_str_of [''PACK FAULT RESET''] h pg = ''pack-fault-reset-p'' @ str_int pg"
  by (simp add: id_str_of_def id_pat_def char_ev re_ev str_ev)

text \<open>
  The scenario with both steps on the line of the declaration: the procedure is not
  the two lines \<^verbatim>\<open>1. Open panel\<close> and \<^verbatim>\<open>2. Press button\<close>.
\<close>

theorem one_line_stays_one_step:
  "resetProcedure (the (parse_block (pack_fault_block 7))) \<noteq> ''1. Open panel\<newline>2. Press button''"
  by (simp add: parse_block_def Let_def pack_fault_proc)

text \<open>
  C3, as the code has it: the block with the header \<^verbatim>\<open>SUBTASK 24-00-810 - PACK FAULT RESET\<close>,
  the marker \<^verbatim>\<open>** ON A/C FSN 051-070\<close> and the line
  \<^verbatim>\<open>RESET PROCEDURE: 1. Open panel 2. Press button\<close> gives the variants CEO, an id
  that is \<^verbatim>\<open>pack-fault-reset\<close> followed by the page suffix, and the one step
  \<^verbatim>\<open>1. Open panel 2. Press button\<close>: steps are split at line breaks only. With the two
  steps on lines of their own the procedure is the two renumbered lines.
\<close>

theorem pack_fault_scenario:
  "(\<exists>e. parse_block (pack_fault_block pg) = Some e
        \<and> aircraft e = [''CEO'']
        \<and> resetProcedure e = ''1. Open panel 2. Press button''
        \<and> entry_id e = ''pack-fault-reset-p'' @ str_int pg)
   \<and> (\<exists>e. parse_block (pack_fault_block_lines pg) = Some e
        \<and> resetProcedure e = ''1. Open panel\<newline>2. Press button'')"
proof -
  have "page_b (pack_fault_block pg) = pg" by (simp add: pack_fault_block_def)
  then show ?thesis
    by (simp add: parse_block_def Let_def pack_fault_fsn ceo_051_070 pack_fault_proc pack_fault_msgs
        pack_fault_id pack_fault_proc_lines)
qed

section \<open>The block segmenter: properties\<close>

lemma finditer_at_props:
  "sorted_wrt (\<lambda>a b. mend a \<le> mstart b) (finditer_at fl r adv cur)
   \<and> (\<forall>mt\<in>set (finditer_at fl r adv cur).
         pos cur \<le> mstart mt \<and> mstart mt \<le> mend mt
         \<and> mend mt \<le> pos cur + int (length (rest cur))
         \<and> (nonnull r \<longrightarrow> mstart mt < mend mt))"
proof (induction fl r adv cur rule: finditer_at.induct)
  case (1 fl r adv cur)
  show ?case
  proof (cases "search_at fl r adv cur")
    case None
    then show ?thesis by (simp add: finditer_at.simps)
  next
    case (Some found)
    obtain st en cs where found: "found = (st, en, cs)" by (cases found) auto
    have unf: "finditer_at fl r adv cur = (pos st, pos en, cs) # finditer_at fl r (pos en = pos st) en"
      using Some found by (simp add: finditer_at.simps)
    from search_at_props[of fl r adv cur st en cs] Some found
    have sp: "reach r st en" "pos cur \<le> pos st"
      "pos st + int (length (rest st)) = pos cur + int (length (rest cur))" by auto
    have ih: "sorted_wrt (\<lambda>a b. mend a \<le> mstart b) (finditer_at fl r (pos en = pos st) en)
       \<and> (\<forall>mt\<in>set (finditer_at fl r (pos en = pos st) en).
             pos en \<le> mstart mt \<and> mstart mt \<le> mend mt
             \<and> mend mt \<le> pos en + int (length (rest en))
             \<and> (nonnull r \<longrightarrow> mstart mt < mend mt))"
      by (rule "1.IH"[OF Some found[symmetric] refl])
    from sp have e1: "pos st \<le> pos en" "pos en + int (length (rest en)) = pos cur + int (length (rest cur))"
      "nonnull r \<longrightarrow> pos st < pos en"
      by (auto simp: reach_def)
    show ?thesis unfolding unf using ih sp(2) e1 by auto
  qed
qed

lemma sorted_starts:
  "sorted_wrt (\<lambda>a b. mend a \<le> mstart b) ms \<Longrightarrow>
   \<forall>mt\<in>set ms. mstart mt < mend mt \<and> mend mt \<le> n \<Longrightarrow>
   sorted_wrt (<) (map mstart ms @ [n])"
  by (induction ms) (auto simp: sorted_wrt_append)

lemma finditer_starts:
  assumes "nonnull r"
  shows "sorted_wrt (<) (map mstart (finditer fl r t) @ [int (length t)])
         \<and> (\<forall>s\<in>set (map mstart (finditer fl r t)). 0 \<le> s)"
proof -
  let ?L = "finditer_at fl r False (0, None, t)"
  from finditer_at_props[of fl r False "(0, None, t)"] assms
  have srt: "sorted_wrt (\<lambda>a b. mend a \<le> mstart b) ?L"
    and each: "\<forall>mt\<in>set ?L. 0 \<le> mstart mt \<and> mstart mt < mend mt \<and> mend mt \<le> int (length t)"
    by auto
  from sorted_starts[OF srt, of "int (length t)"] each show ?thesis
    by (auto simp: finditer_def)
qed

lemma blocks_of_texts:
  "map text_b (blocks_of full ms) =
     map (\<lambda>(a, b). slice full a b) (zip (map mstart ms) (tl (map mstart ms) @ [int (length full)]))"
proof (induction ms)
  case Nil
  show ?case by simp
next
  case (Cons mt ms)
  then show ?case by (cases ms) (simp_all add: Let_def)
qed

lemma slice_then_drop:
  "0 \<le> a \<Longrightarrow> a \<le> b \<Longrightarrow> slice t a b @ drop (nat b) t = drop (nat a) t"
proof -
  assume "0 \<le> a" "a \<le> b"
  then have h: "nat b = nat (b - a) + nat a" by simp
  have d: "drop (nat b) t = drop (nat (b - a)) (drop (nat a) t)" by (simp only: drop_drop h)
  show ?thesis unfolding slice_def d by (rule append_take_drop_id)
qed

lemma slices_concat:
  "sorted_wrt (<) (xs @ [int (length t)]) \<Longrightarrow> \<forall>s\<in>set xs. 0 \<le> s \<Longrightarrow>
   concat (map (\<lambda>(a, b). slice t a b) (zip xs (tl xs @ [int (length t)]))) =
     (case xs of [] \<Rightarrow> [] | s # _ \<Rightarrow> drop (nat s) t)"
proof (induction xs)
  case Nil
  show ?case by simp
next
  case (Cons x xs)
  show ?case
  proof (cases xs)
    case Nil
    have "slice t x (int (length t)) = drop (nat x) t"
      using Cons.prems by (simp add: slice_def)
    with Nil show ?thesis by simp
  next
    case (Cons y ys)
    from Cons.prems Cons have xy: "0 \<le> x" "x \<le> y" by auto
    from Cons.prems Cons.IH Cons
    have "concat (map (\<lambda>(a, b). slice t a b) (zip xs (tl xs @ [int (length t)]))) = drop (nat y) t"
      by auto
    with Cons slice_then_drop[OF xy] show ?thesis by simp
  qed
qed

lemma nonnull_subtask_pattern: "nonnull subtask_pattern"
  by (simp add: subtask_pattern_def)

definition two_pages :: "page list" where
  "two_pages = [\<lparr>page_p = 1, text_p = ''Intro. SUBTASK 1 - AB.''\<rparr>,
                \<lparr>page_p = 2, text_p = ''SUBTASK 2 - CD''\<rparr>]"

lemma two_pages_full:
  "full_with_markers two_pages =
     ''\<newline><<<PAGE 1>>>\<newline>Intro. SUBTASK 1 - AB.\<newline><<<PAGE 2>>>\<newline>SUBTASK 2 - CD''"
  by (simp add: two_pages_def full_with_markers_def num_ev)

lemma two_pages_starts:
  "map mstart (finditer ic_flags subtask_pattern (full_with_markers two_pages)) = [21, 50]"
  unfolding two_pages_full by (simp add: subtask_pattern_def char_ev re_ev)

text \<open>
  C1: for every sequence of pages, the blocks of \<open>split_into_blocks\<close> are cut from the
  concatenated text (the page texts, each after its page sentinel) at the offsets where
  the header matches start. These offsets are non-negative and strictly increasing and
  lie before the end of the text; there is one block for each of them; the text of a block
  is the text from its offset to the next one, or to the end for the last, so the blocks
  follow each other without gap or overlap; and the texts of the blocks, put together,
  are the concatenated text from the first header on. What stands before the first
  header is in no block, and without a header there is no block.
\<close>

theorem blocks_partition:
  "let full = full_with_markers pages;
       starts = map mstart (finditer ic_flags subtask_pattern full);
       bs = split_into_blocks pages
   in sorted_wrt (<) (starts @ [int (length full)])
      \<and> (\<forall>s\<in>set starts. 0 \<le> s)
      \<and> length bs = length starts
      \<and> map text_b bs = map (\<lambda>(a, b). slice full a b) (zip starts (tl starts @ [int (length full)]))
      \<and> concat (map text_b bs) = (case starts of [] \<Rightarrow> [] | s # _ \<Rightarrow> drop (nat s) full)"
proof -
  let ?full = "full_with_markers pages"
  let ?starts = "map mstart (finditer ic_flags subtask_pattern ?full)"
  have st: "sorted_wrt (<) (?starts @ [int (length ?full)]) \<and> (\<forall>s\<in>set ?starts. 0 \<le> s)"
    by (rule finditer_starts[OF nonnull_subtask_pattern])
  have tx: "map text_b (split_into_blocks pages) =
      map (\<lambda>(a, b). slice ?full a b) (zip ?starts (tl ?starts @ [int (length ?full)]))"
    by (simp add: split_into_blocks_def blocks_of_texts)
  have ln: "length (split_into_blocks pages) = length ?starts"
    using arg_cong[OF tx, of length] by simp
  have cc: "concat (map text_b (split_into_blocks pages)) = (case ?starts of [] \<Rightarrow> [] | s # _ \<Rightarrow> drop (nat s) ?full)"
    unfolding tx using st by (intro slices_concat) auto
  from st tx ln cc show ?thesis by (simp add: Let_def)
qed


theorem blocks_partition_witness:
  "map mstart (finditer ic_flags subtask_pattern (full_with_markers two_pages)) = [21, 50]
   \<and> map text_b (split_into_blocks two_pages) = [''SUBTASK 1 - AB.\<newline><<<PAGE 2>>>\<newline>'', ''SUBTASK 2 - CD'']
   \<and> concat (map text_b (split_into_blocks two_pages)) = ''SUBTASK 1 - AB.\<newline><<<PAGE 2>>>\<newline>SUBTASK 2 - CD''"
proof -
  note bp = blocks_partition [of two_pages, unfolded Let_def two_pages_starts]
  from bp have tx: "map text_b (split_into_blocks two_pages) =
          map (\<lambda>(a, b). slice (full_with_markers two_pages) a b)
            (zip [21, 50] (tl [21, 50] @ [int (length (full_with_markers two_pages))]))"
    by blast
  from bp have cc: "concat (map text_b (split_into_blocks two_pages)) =
          (case [21, 50] of [] \<Rightarrow> [] | s # _ \<Rightarrow> drop (nat s) (full_with_markers two_pages))"
    by blast
  have "map text_b (split_into_blocks two_pages) = [''SUBTASK 1 - AB.\<newline><<<PAGE 2>>>\<newline>'', ''SUBTASK 2 - CD'']"
    unfolding tx two_pages_full by (simp add: slice_def)
  moreover have "concat (map text_b (split_into_blocks two_pages)) = ''SUBTASK 1 - AB.\<newline><<<PAGE 2>>>\<newline>SUBTASK 2 - CD''"
    unfolding cc two_pages_full by simp
  ultimately show ?thesis using two_pages_starts by blast
qed

end
